theory Spec2Isabelle
  imports Complex_Main "HOL-Library.Log_Nat"
begin

section \<open>Strings\<close>

text \<open>
  A JavaScript string is a sequence of UTF-16 code units. The default title of the
  standalone editor and the white space that \<open>trim\<close> removes lie outside Latin-1, so
  a code unit is a natural number here; \<open>js\<close> turns an ASCII literal into such a string.
\<close>

type_synonym js_string = "nat list"

definition js :: "string \<Rightarrow> js_string" where
  "js cs = map of_char cs"

section \<open>The networked editor (frontend-web/src/App.vue)\<close>

subsection \<open>Link state\<close>

text \<open>\<^verbatim>\<open>type SaveState = { type: "unlinked" } | { type: "linked"; dirty: boolean }\<close>\<close>

datatype SaveState = Unlinked | Linked bool

text \<open>The body of a content response, \<^verbatim>\<open>{ content, title, saved }\<close>.\<close>

datatype payload = Payload (data_content: js_string) (data_title: "js_string option") (data_saved: bool)

text \<open>
  How the two awaits of a content request, \<^verbatim>\<open>await fetch(...)\<close> and
  \<^verbatim>\<open>await response.json()\<close>, end: the fetch rejects, the response is not ok (the
  code throws), reading the body rejects, or the body arrives. Nothing is assigned
  between the two awaits, so they are one suspension point here.
\<close>

datatype response = Fetch_rejected | Response_not_ok | Json_rejected | Response_ok payload

text \<open>How \<^verbatim>\<open>await fetch(API_STATUS_URL)\<close> ends; the body of a status response is never read.\<close>

datatype status_response = Status_rejected | Status_not_ok | Status_ok

text \<open>The body of the POST of \<^verbatim>\<open>handleSaveFile\<close>.\<close>

datatype post_body = Post_body (body_content: js_string) (body_title: "js_string option") (body_saved: bool)

datatype request = GET_content | POST_content post_body | GET_status

text \<open>
  An async function that has reached an await is a suspended frame. \<^verbatim>\<open>loadContent\<close> is
  awaited by the first \<^verbatim>\<open>onMounted\<close> hook and by \<^verbatim>\<open>checkLink\<close>; the frame
  records which, since the awaiting function goes on when the load has finished.
\<close>

datatype awaiter = Awaited_by_onMounted | Awaited_by_checkLink

datatype frame = LoadContent_frame awaiter | HandleSaveFile_frame | CheckLink_frame

text \<open>
  The reactive cells of the component (\<^verbatim>\<open>text\<close>, \<^verbatim>\<open>title\<close>, \<^verbatim>\<open>saveState\<close>,
  \<^verbatim>\<open>lastSavedContent\<close>, \<^verbatim>\<open>isLoading\<close>), and what the component has done to its host:
  the fetches issued, the alerts shown, the errors written to the console, the pending
  \<^verbatim>\<open>setTimeout(checkLink, ms)\<close> delays and the suspended frames.
\<close>

record app =
  text_value :: js_string
  title :: "js_string option"
  saveState :: SaveState
  lastSavedContent :: js_string
  isLoading :: bool
  requests :: "request list"
  alerts :: "js_string list"
  console_errors :: nat
  timeouts :: "nat list"
  frames :: "frame list"

definition isLinked :: "app \<Rightarrow> bool" where
  "isLinked s = (case saveState s of Linked d \<Rightarrow> True | Unlinked \<Rightarrow> False)"

definition isDirty :: "app \<Rightarrow> bool" where
  "isDirty s = (case saveState s of Linked d \<Rightarrow> d | Unlinked \<Rightarrow> False)"

definition shouldWarnOnLeave :: "app \<Rightarrow> bool" where
  "shouldWarnOnLeave s = (case saveState s of Unlinked \<Rightarrow> True | Linked d \<Rightarrow> d)"

definition markLinked :: "bool \<Rightarrow> app \<Rightarrow> app" where
  "markLinked d s = s\<lparr>saveState := Linked d\<rparr>"

definition markUnlinked :: "app \<Rightarrow> app" where
  "markUnlinked s = s\<lparr>saveState := Unlinked\<rparr>"

definition markDirty :: "app \<Rightarrow> app" where
  "markDirty s = (case saveState s of Linked d \<Rightarrow> s\<lparr>saveState := Linked True\<rparr> | Unlinked \<Rightarrow> s)"

definition markSaved :: "app \<Rightarrow> app" where
  "markSaved s = (case saveState s of Linked d \<Rightarrow> s\<lparr>saveState := Linked False\<rparr> | Unlinked \<Rightarrow> s)"

subsection \<open>The watcher on the buffer\<close>

text \<open>The callback of \<^verbatim>\<open>watch(text, (newText) => ...)\<close>.\<close>

definition watch_text :: "js_string \<Rightarrow> app \<Rightarrow> app" where
  "watch_text newText s =
     (if \<not> isLinked s then s
      else if newText = lastSavedContent s then markSaved s
      else markDirty s)"

text \<open>
  Vue queues the callback when an assignment changes the value of \<^verbatim>\<open>text\<close>, and runs
  it once the running code has finished, with the value \<^verbatim>\<open>text\<close> has then.
  \<open>oldText\<close> is the value before that code ran.
\<close>

definition flush_watch_text :: "js_string \<Rightarrow> app \<Rightarrow> app" where
  "flush_watch_text oldText s =
     (if text_value s \<noteq> oldText then watch_text (text_value s) s else s)"

text \<open>An input event on the textarea: \<^verbatim>\<open>v-model="text"\<close> assigns the new content.\<close>

definition input :: "js_string \<Rightarrow> app \<Rightarrow> app" where
  "input newText s = flush_watch_text (text_value s) (s\<lparr>text_value := newText\<rparr>)"

subsection \<open>loadContent\<close>

text \<open>
  Whether the promise an async call returns is already settled when the call returns
  (the call ran to its end) or still pending (the call is suspended at an await).
\<close>

datatype promise = Settled | Pending

text \<open>
  \<^verbatim>\<open>loadContent\<close> up to its first await: the guard on \<^verbatim>\<open>isLoading\<close>, then the flag is
  set and the GET is issued.
\<close>

definition loadContent_call :: "awaiter \<Rightarrow> app \<Rightarrow> app \<times> promise" where
  "loadContent_call a s =
     (if isLoading s then (s, Settled)
      else (s\<lparr>isLoading := True,
               requests := requests s @ [GET_content],
               frames := frames s @ [LoadContent_frame a]\<rparr>, Pending))"

text \<open>
  \<^verbatim>\<open>loadContent\<close> from the settled request to its end: the assignments of the try block,
  or the catch block, then the finally block. The watcher on \<^verbatim>\<open>text\<close> runs afterwards.
\<close>

definition loadContent_resume :: "response \<Rightarrow> app \<Rightarrow> app" where
  "loadContent_resume r s =
     (let s1 = (case r of
                  Response_ok d \<Rightarrow>
                    (let s2 = s\<lparr>title := data_title d,
                                text_value := data_content d,
                                lastSavedContent := data_content d\<rparr>
                     in if data_saved d then markLinked False s2 else markUnlinked s2)
                | _ \<Rightarrow> markUnlinked (s\<lparr>console_errors := console_errors s + 1\<rparr>))
      in flush_watch_text (text_value s) (s1\<lparr>isLoading := False\<rparr>))"

subsection \<open>handleSaveFile\<close>

definition save_error_message :: js_string where
  "save_error_message = js ''Error in saving files, check your backend state.''"

definition handleSaveFile_call :: "app \<Rightarrow> app" where
  "handleSaveFile_call s =
     (if isLoading s then s
      else s\<lparr>isLoading := True,
              requests := requests s @ [POST_content (Post_body (text_value s) (title s) False)],
              frames := frames s @ [HandleSaveFile_frame]\<rparr>)"

definition handleSaveFile_resume :: "response \<Rightarrow> app \<Rightarrow> app" where
  "handleSaveFile_resume r s =
     (let s1 = (case r of
                  Response_ok d \<Rightarrow>
                    (let s2 = s\<lparr>text_value := data_content d,
                                title := data_title d,
                                lastSavedContent := data_content d\<rparr>
                     in if data_saved d then markLinked False s2 else markUnlinked s2)
                | _ \<Rightarrow> (markUnlinked s)\<lparr>alerts := alerts s @ [save_error_message]\<rparr>)
      in flush_watch_text (text_value s) (s1\<lparr>isLoading := False\<rparr>))"

subsection \<open>checkLink\<close>

definition CHECK_LINK_MS :: nat where
  "CHECK_LINK_MS = 1000 * 30"

text \<open>\<^verbatim>\<open>checkLink\<close> up to its first await: the status request is issued.\<close>

definition checkLink_call :: "app \<Rightarrow> app" where
  "checkLink_call s =
     s\<lparr>requests := requests s @ [GET_status], frames := frames s @ [CheckLink_frame]\<rparr>"

text \<open>The finally block: \<^verbatim>\<open>setTimeout(checkLink, CHECK_LINK_MS)\<close>.\<close>

definition checkLink_finally :: "app \<Rightarrow> app" where
  "checkLink_finally s = s\<lparr>timeouts := timeouts s @ [CHECK_LINK_MS]\<rparr>"

text \<open>
  Where a resumed \<^verbatim>\<open>checkLink\<close> stops next: it has run through its finally block, or it
  has called \<^verbatim>\<open>loadContent\<close> and awaits the promise that call returned.
\<close>

datatype suspension = Completed | Await_loadContent promise

text \<open>
  \<^verbatim>\<open>checkLink\<close> from the settled status request on. A rejected fetch goes through the
  catch block, a response that is not ok through the early return; both run the finally
  block. On an ok response \<^verbatim>\<open>loadContent\<close> is called when the state is linked and not
  dirty, and the finally block runs only after the awaited load.
\<close>

definition checkLink_resume :: "status_response \<Rightarrow> app \<Rightarrow> app \<times> suspension" where
  "checkLink_resume r s =
     (case r of
        Status_rejected \<Rightarrow> (checkLink_finally (markUnlinked s), Completed)
      | Status_not_ok \<Rightarrow> (checkLink_finally (markUnlinked s), Completed)
      | Status_ok \<Rightarrow>
          (if (case saveState s of Linked d \<Rightarrow> \<not> d | Unlinked \<Rightarrow> False)
           then (case loadContent_call Awaited_by_checkLink s of
                   (s', p) \<Rightarrow> (s', Await_loadContent p))
           else (checkLink_finally s, Completed)))"

subsection \<open>The component in its event loop\<close>

text \<open>
  Initial values of the cells, and the two \<^verbatim>\<open>onMounted\<close> hooks in the order they are
  registered: the first calls \<^verbatim>\<open>loadContent\<close>, the second is \<^verbatim>\<open>checkLink\<close>. Both run
  to their first await.
\<close>

definition init :: app where
  "init = \<lparr>text_value = [], title = None, saveState = Unlinked, lastSavedContent = [],
           isLoading = False, requests = [], alerts = [], console_errors = 0,
           timeouts = [], frames = []\<rparr>"

definition onMounted :: "app \<Rightarrow> app" where
  "onMounted s = checkLink_call (fst (loadContent_call Awaited_by_onMounted s))"

text \<open>
  What the host can do to the mounted component: the user edits the textarea, the user
  asks for a save (Ctrl+S or a click on the indicator), the request of a suspended frame
  settles, a pending timeout fires. Frames and timeouts are addressed by position.
\<close>

datatype event =
    Input js_string
  | Save_requested
  | Content_settles nat response
  | Status_settles nat status_response
  | Timeout_fires nat

definition remove_nth :: "nat \<Rightarrow> 'a list \<Rightarrow> 'a list" where
  "remove_nth i xs = take i xs @ drop (Suc i) xs"

text \<open>
  What the function awaiting \<^verbatim>\<open>loadContent\<close> does once the load has finished:
  \<^verbatim>\<open>checkLink\<close> runs its finally block; the \<^verbatim>\<open>onMounted\<close> hook calls
  \<^verbatim>\<open>syncPageHeight\<close>, which touches none of the cells of \<open>app\<close>.
\<close>

definition after_loadContent :: "awaiter \<Rightarrow> app \<Rightarrow> app" where
  "after_loadContent a s =
     (case a of Awaited_by_checkLink \<Rightarrow> checkLink_finally s | Awaited_by_onMounted \<Rightarrow> s)"

text \<open>
  One turn of the event loop. A settled request resumes the frame it belongs to, which runs
  to its end; an event that names no frame or timeout, or a frame of the other kind,
  changes nothing. A \<^verbatim>\<open>checkLink\<close> that awaits an already settled load goes on in the same
  turn.
\<close>

definition step :: "app \<Rightarrow> event \<Rightarrow> app" where
  "step s e =
     (case e of
        Input newText \<Rightarrow> input newText s
      | Save_requested \<Rightarrow> handleSaveFile_call s
      | Content_settles i r \<Rightarrow>
          (if i < length (frames s) then
             (case frames s ! i of
                LoadContent_frame a \<Rightarrow>
                  after_loadContent a (loadContent_resume r (s\<lparr>frames := remove_nth i (frames s)\<rparr>))
              | HandleSaveFile_frame \<Rightarrow>
                  handleSaveFile_resume r (s\<lparr>frames := remove_nth i (frames s)\<rparr>)
              | CheckLink_frame \<Rightarrow> s)
           else s)
      | Status_settles i r \<Rightarrow>
          (if i < length (frames s) \<and> frames s ! i = CheckLink_frame then
             (case checkLink_resume r (s\<lparr>frames := remove_nth i (frames s)\<rparr>) of
                (s', Completed) \<Rightarrow> s'
              | (s', Await_loadContent Settled) \<Rightarrow> checkLink_finally s'
              | (s', Await_loadContent Pending) \<Rightarrow> s')
           else s)
      | Timeout_fires i \<Rightarrow>
          (if i < length (timeouts s)
           then checkLink_call (s\<lparr>timeouts := remove_nth i (timeouts s)\<rparr>)
           else s))"

text \<open>The component after mounting and a sequence of events.\<close>

definition run :: "event list \<Rightarrow> app" where
  "run es = foldl step (onMounted init) es"

subsection \<open>What is observed of a state\<close>

text \<open>A content request fails when the try block throws, that is, unless the body arrives.\<close>

definition failed :: "response \<Rightarrow> bool" where
  "failed r = (case r of Response_ok d \<Rightarrow> False | _ \<Rightarrow> True)"

definition poll_failed :: "status_response \<Rightarrow> bool" where
  "poll_failed r = (case r of Status_ok \<Rightarrow> False | _ \<Rightarrow> True)"

text \<open>The frames of \<^verbatim>\<open>loadContent\<close> and \<^verbatim>\<open>handleSaveFile\<close>: the operations in flight.\<close>

definition is_content_frame :: "frame \<Rightarrow> bool" where
  "is_content_frame f = (case f of CheckLink_frame \<Rightarrow> False | _ \<Rightarrow> True)"

definition in_flight :: "app \<Rightarrow> nat" where
  "in_flight s = length (filter is_content_frame (frames s))"

text \<open>
  A run of \<^verbatim>\<open>checkLink\<close> that has not reached its finally block yet is suspended at
  its status request or at the load it awaits.
\<close>

definition is_poll_frame :: "frame \<Rightarrow> bool" where
  "is_poll_frame f =
     (case f of
        CheckLink_frame \<Rightarrow> True
      | LoadContent_frame a \<Rightarrow> a = Awaited_by_checkLink
      | HandleSaveFile_frame \<Rightarrow> False)"

definition polls_running :: "app \<Rightarrow> nat" where
  "polls_running s = length (filter is_poll_frame (frames s))"

text \<open>Whether a resumed \<^verbatim>\<open>checkLink\<close> has called \<^verbatim>\<open>loadContent\<close>.\<close>

definition calls_loadContent :: "suspension \<Rightarrow> bool" where
  "calls_loadContent k = (case k of Await_loadContent p \<Rightarrow> True | Completed \<Rightarrow> False)"

definition sent_saved_flag :: "request \<Rightarrow> bool" where
  "sent_saved_flag q = (case q of POST_content b \<Rightarrow> body_saved b | _ \<Rightarrow> False)"

text \<open>
  Three invariants of the event loop: \<open>isLoading\<close> is set exactly while one load or save
  is in flight; a pending timeout and a running poll exclude each other and there is one
  of the two, every timeout with the delay \<open>CHECK_LINK_MS\<close>; no request sent carries
  the saved flag.
\<close>

definition guard_inv :: "app \<Rightarrow> bool" where
  "guard_inv s = (in_flight s = (if isLoading s then 1 else 0))"

definition poll_inv :: "app \<Rightarrow> bool" where
  "poll_inv s =
     (length (timeouts s) + polls_running s = 1 \<and> set (timeouts s) \<subseteq> {CHECK_LINK_MS})"

definition sent_inv :: "app \<Rightarrow> bool" where
  "sent_inv s = list_all (\<lambda>q. \<not> sent_saved_flag q) (requests s)"

subsection \<open>Page geometry\<close>

text \<open>
  The page height is an integer number of pixels (\<^verbatim>\<open>scrollHeight\<close> is one).
\<close>

definition HEIGHT :: int where
  "HEIGHT = 1123"

datatype css_height = Height_auto | Height_px int

text \<open>
  The textarea behind \<^verbatim>\<open>pageRef\<close>: \<open>scrollHeight\<close> is what the layout reports for the
  current content while the style height is \<^verbatim>\<open>auto\<close>, the only time the code reads it.
\<close>

record page_element =
  scrollHeight :: int
  style_height :: css_height

text \<open>The two template refs; of the scroll wrapper only \<^verbatim>\<open>scrollTop\<close> is used.\<close>

record dom =
  pageRef :: "page_element option"
  scrollWrapperRef :: "int option"

definition pageHeightPx_init :: int where
  "pageHeightPx_init = HEIGHT"

text \<open>\<^verbatim>\<open>syncPageHeight\<close>, on the refs and \<^verbatim>\<open>pageHeightPx\<close>; it returns both.\<close>

definition syncPageHeight :: "dom \<Rightarrow> int \<Rightarrow> dom \<times> int" where
  "syncPageHeight d pageHeightPx =
     (case pageRef d of
        None \<Rightarrow> (d, pageHeightPx)
      | Some page \<Rightarrow>
          (let previousScrollTop = (case scrollWrapperRef d of Some scrollTop \<Rightarrow> scrollTop | None \<Rightarrow> 0);
               page1 = page\<lparr>style_height := Height_auto\<rparr>;
               pageHeightPx' = max (scrollHeight page1) HEIGHT;
               page2 = page1\<lparr>style_height := Height_px pageHeightPx'\<rparr>;
               wrapper = (case scrollWrapperRef d of
                            Some scrollTop \<Rightarrow> Some previousScrollTop
                          | None \<Rightarrow> None)
           in (d\<lparr>pageRef := Some page2, scrollWrapperRef := wrapper\<rparr>, pageHeightPx')))"

subsection \<open>Numbers and zoom\<close>

text \<open>
  A JavaScript number is a double. A finite double is taken as the rational it denotes,
  and \<open>double_round x\<close> is the double nearest to the rational \<open>x\<close>, the one with the even
  mantissa when two are equally near: the result of an addition whose exact result is
  \<open>x\<close>, and the number a decimal string denoting \<open>x\<close> converts to. A double has a
  mantissa of 53 bits; \<open>expo x\<close> is the binary exponent of \<open>x\<close> and \<open>ulp x\<close> the
  distance between neighbouring doubles at \<open>x\<close>. NaN, the infinities and the limits of the
  exponent are left out: the zoom stays between 0.5 and 3 and the component passes the
  deltas 0.25 and -0.25 only.
\<close>

definition round_even :: "rat \<Rightarrow> int" where
  "round_even y =
     (let f = \<lfloor>y\<rfloor>; r = y - of_int f
      in if r < 1 / 2 then f else if 1 / 2 < r then f + 1 else if even f then f else f + 1)"

definition expo :: "rat \<Rightarrow> int" where
  "expo x =
     (case quotient_of \<bar>x\<bar> of
        (p, q) \<Rightarrow> (let d = bitlen p - bitlen q in if 2 powi d \<le> \<bar>x\<bar> then d else d - 1))"

definition ulp :: "rat \<Rightarrow> rat" where
  "ulp x = 2 powi (expo x - 52)"

definition double_round :: "rat \<Rightarrow> rat" where
  "double_round x = (if x = 0 then 0 else of_int (round_even (x / ulp x)) * ulp x)"

text \<open>
  The value of the string \<^verbatim>\<open>x.toFixed(2)\<close>: below \<open>10 ^ 21\<close> in size, the multiple of a
  hundredth nearest to the size of \<open>x\<close>, the larger one when two are equally near, with
  the sign of \<open>x\<close>; from \<open>10 ^ 21\<close> on, the string of \<open>x\<close> itself.
\<close>

definition toFixed2 :: "rat \<Rightarrow> rat" where
  "toFixed2 x =
     (if 10 ^ 21 \<le> \<bar>x\<bar> then x
      else if x < 0 then - (of_int \<lfloor>- x * 100 + 1 / 2\<rfloor> / 100)
      else of_int \<lfloor>x * 100 + 1 / 2\<rfloor> / 100)"

definition zoomLevel_init :: rat where
  "zoomLevel_init = 1"

text \<open>
  \<^verbatim>\<open>Number(Math.max(0.5, Math.min(3, zoomLevel.value + delta)).toFixed(2))\<close>: the sum
  is rounded to a double, clamped, written with two decimals and read back as a double.
\<close>

definition changeZoomLevel :: "rat \<Rightarrow> rat \<Rightarrow> rat" where
  "changeZoomLevel delta zoomLevel =
     double_round (toFixed2 (max (1 / 2) (min 3 (double_round (zoomLevel + delta)))))"

definition handleCtrlWheel :: "rat \<Rightarrow> rat \<Rightarrow> rat" where
  "handleCtrlWheel deltaY zoomLevel =
     changeZoomLevel (if deltaY > 0 then - (1 / 4) else 1 / 4) zoomLevel"

definition resetZoomLevel :: "rat \<Rightarrow> rat" where
  "resetZoomLevel zoomLevel = 1"

section \<open>The standalone editor: title and export\<close>

text \<open>
  \<^verbatim>\<open>const purifyFilename = (raw: string) => raw.replace(/[\/:*?"<>|]/g, "_")\<close>.
  In the character class \<^verbatim>\<open>\/\<close> is the slash, so the class holds the eight
  characters \<^verbatim>\<open>/ : * ? " < > |\<close>; each is replaced by an underscore.
\<close>

definition purify_class :: "nat list" where
  "purify_class = [47, 58, 42, 63, 34, 60, 62, 124]"

definition purifyFilename :: "js_string \<Rightarrow> js_string" where
  "purifyFilename raw = map (\<lambda>c. if c \<in> set purify_class then 95 else c) raw"

text \<open>The code units \<^verbatim>\<open>String.prototype.trim\<close> removes: white space and line terminators.\<close>

definition is_space :: "nat \<Rightarrow> bool" where
  "is_space c =
     (c \<in> set [9, 10, 11, 12, 13, 32, 160, 5760, 8232, 8233, 8239, 8287, 12288, 65279]
      \<or> (8192 \<le> c \<and> c \<le> 8202))"

definition trim :: "js_string \<Rightarrow> js_string" where
  "trim x = rev (dropWhile is_space (rev (dropWhile is_space x)))"

text \<open>\<^verbatim>\<open>DEFAULT_TITLE\<close>, three code units: U+65B0, U+6587, U+6863.\<close>

definition DEFAULT_TITLE :: js_string where
  "DEFAULT_TITLE = [26032, 25991, 26723]"

text \<open>
  \<^verbatim>\<open>requestTitle\<close>: \<open>titleValue\<close> is the current \<^verbatim>\<open>title.value\<close>, \<open>initial\<close> and
  \<open>fallback\<close> are the two options, \<open>answer\<close> is what \<^verbatim>\<open>prompt\<close> returns (\<open>None\<close> when
  the user cancels).
\<close>

definition requestTitle ::
  "js_string option \<Rightarrow> js_string option \<Rightarrow> js_string option \<Rightarrow> js_string option
     \<Rightarrow> js_string option" where
  "requestTitle titleValue initial fallback answer =
     (let placeholder =
            (case initial of
               Some i \<Rightarrow> i
             | None \<Rightarrow> (case titleValue of Some t \<Rightarrow> t | None \<Rightarrow> DEFAULT_TITLE))
      in case answer of
           None \<Rightarrow> None
         | Some inp \<Rightarrow>
             (let trimmed = trim inp;
                  finalValue =
                    (if length trimmed > 0 then trimmed
                     else (case fallback of Some f \<Rightarrow> f | None \<Rightarrow> placeholder))
              in Some (purifyFilename finalValue)))"

text \<open>\<^verbatim>\<open>handleChangedTitle\<close>: the new \<^verbatim>\<open>title.value\<close>.\<close>

definition handleChangedTitle :: "js_string option \<Rightarrow> js_string option \<Rightarrow> js_string option" where
  "handleChangedTitle titleValue answer =
     (case requestTitle titleValue
             (Some (case titleValue of Some t \<Rightarrow> t | None \<Rightarrow> DEFAULT_TITLE))
             (Some DEFAULT_TITLE) answer of
        None \<Rightarrow> titleValue
      | Some v \<Rightarrow> Some v)"

text \<open>The computed \<^verbatim>\<open>downloadFilename\<close>, the name \<^verbatim>\<open>handleSaveFile\<close> gives the download.\<close>

definition downloadFilename :: "js_string option \<Rightarrow> js_string" where
  "downloadFilename titleValue =
     (let safe = (case titleValue of
                    Some t \<Rightarrow> (if length (trim t) > 0 then trim t else DEFAULT_TITLE)
                  | None \<Rightarrow> DEFAULT_TITLE)
      in safe @ js ''.txt'')"

text \<open>
  The characters a file name cannot hold on Windows, the system the editor is built for:
  the two path separators, backslash and slash, and \<^verbatim>\<open>: * ? " < > |\<close>.
\<close>

definition path_separators :: "nat list" where
  "path_separators = [92, 47]"

definition reserved_characters :: "nat list" where
  "reserved_characters = [58, 42, 63, 34, 60, 62, 124]"

section \<open>Properties of the networked editor\<close>

lemmas link_defs = isLinked_def markSaved_def markDirty_def markLinked_def markUnlinked_def

lemmas watch_defs = input_def flush_watch_text_def watch_text_def

subsection \<open>Edits and the snapshot\<close>

lemma loadContent_resume_ok:
  "text_value (loadContent_resume (Response_ok d) s) = data_content d"
  "title (loadContent_resume (Response_ok d) s) = data_title d"
  "lastSavedContent (loadContent_resume (Response_ok d) s) = data_content d"
  "saveState (loadContent_resume (Response_ok d) s) = (if data_saved d then Linked False else Unlinked)"
  by (simp_all add: loadContent_resume_def Let_def watch_defs link_defs)

lemma input_linked:
  assumes "saveState s = Linked d" and "newText \<noteq> text_value s"
  shows "saveState (input newText s) = Linked (newText \<noteq> lastSavedContent s)"
    and "text_value (input newText s) = newText"
    and "lastSavedContent (input newText s) = lastSavedContent s"
  using assms by (simp_all add: watch_defs link_defs)

lemma input_requests: "requests (input newText s) = requests s"
  by (simp add: watch_defs link_defs split: SaveState.splits)

text \<open>
  C1. While the state is linked, an input that changes the buffer leaves the state
  \<open>Linked True\<close> exactly when the new buffer differs from \<open>lastSavedContent\<close> and
  \<open>Linked False\<close> exactly when it equals it, and issues no request. In particular, from
  any state, after a load has answered with content "hello", title "doc" and saved = true
  the state is \<open>Linked False\<close>; typing "!" makes it \<open>Linked True\<close>; deleting the "!" makes
  it \<open>Linked False\<close> again, with the requests as they were after the load.
\<close>

theorem input_reclassifies:
  "(saveState s = Linked d \<and> newText \<noteq> text_value s \<longrightarrow>
      saveState (input newText s) = Linked (newText \<noteq> lastSavedContent s)
      \<and> text_value (input newText s) = newText
      \<and> lastSavedContent (input newText s) = lastSavedContent s
      \<and> requests (input newText s) = requests s)
   \<and> (let s1 = loadContent_resume (Response_ok (Payload (js ''hello'') (Some (js ''doc'')) True)) s0;
           s2 = input (js ''hello!'') s1;
           s3 = input (js ''hello'') s2
       in text_value s1 = js ''hello'' \<and> saveState s1 = Linked False
          \<and> text_value s2 = js ''hello!'' \<and> saveState s2 = Linked True
          \<and> text_value s3 = js ''hello'' \<and> saveState s3 = Linked False
          \<and> requests s3 = requests s1)"
proof -
  define s1 where "s1 = loadContent_resume (Response_ok (Payload (js ''hello'') (Some (js ''doc'')) True)) s0"
  define s2 where "s2 = input (js ''hello!'') s1"
  define s3 where "s3 = input (js ''hello'') s2"
  have ne: "js ''hello!'' \<noteq> js ''hello''"
    by (simp add: js_def)
  have s1: "text_value s1 = js ''hello''" "saveState s1 = Linked False"
    "lastSavedContent s1 = js ''hello''"
    by (simp_all add: s1_def loadContent_resume_ok)
  have s2: "text_value s2 = js ''hello!''" "saveState s2 = Linked True"
    "lastSavedContent s2 = js ''hello''"
    using input_linked [of s1 False "js ''hello!''"] s1 ne by (simp_all add: s2_def)
  have s3: "text_value s3 = js ''hello''" "saveState s3 = Linked False"
    using input_linked [of s2 True "js ''hello''"] s2 ne by (simp_all add: s3_def)
  have req: "requests s3 = requests s1"
    by (simp add: s3_def s2_def input_requests)
  have general: "saveState s = Linked d \<and> newText \<noteq> text_value s \<longrightarrow>
      saveState (input newText s) = Linked (newText \<noteq> lastSavedContent s)
      \<and> text_value (input newText s) = newText
      \<and> lastSavedContent (input newText s) = lastSavedContent s
      \<and> requests (input newText s) = requests s"
    using input_linked [of s d newText] input_requests [of newText s] by blast
  from s1 s2 s3 req have "text_value s1 = js ''hello'' \<and> saveState s1 = Linked False
          \<and> text_value s2 = js ''hello!'' \<and> saveState s2 = Linked True
          \<and> text_value s3 = js ''hello'' \<and> saveState s3 = Linked False
          \<and> requests s3 = requests s1"
    by simp
  then show ?thesis
    unfolding Let_def s1_def s2_def s3_def using general by blast
qed

theorem input_reclassifies_witness:
  "saveState (input (js ''hello!'')
      (init\<lparr>saveState := Linked False, text_value := js ''hello'',
            lastSavedContent := js ''hello''\<rparr>)) = Linked True
   \<and> saveState (input (js ''hello'')
      (init\<lparr>saveState := Linked True, text_value := js ''hello!'',
            lastSavedContent := js ''hello''\<rparr>)) = Linked False"
  using input_reclassifies [of "init\<lparr>saveState := Linked False, text_value := js ''hello'',
            lastSavedContent := js ''hello''\<rparr>" False "js ''hello!''"]
    input_reclassifies [of "init\<lparr>saveState := Linked True, text_value := js ''hello!'',
            lastSavedContent := js ''hello''\<rparr>" True "js ''hello''"]
  by (simp add: js_def init_def)

subsection \<open>Outcomes of load, save and poll\<close>

text \<open>
  C2. When the request of a load has settled: if the body arrived, the buffer and the
  snapshot are the fetched content, the title is the fetched title, and the state is
  \<open>Linked False\<close> when the body says saved and \<open>Unlinked\<close> otherwise; if the request
  failed in any way, the state is \<open>Unlinked\<close> and buffer and title are as before.
\<close>

theorem loadContent_outcome:
  "(case r of
      Response_ok d \<Rightarrow>
        text_value (loadContent_resume r s) = data_content d
        \<and> title (loadContent_resume r s) = data_title d
        \<and> lastSavedContent (loadContent_resume r s) = data_content d
        \<and> saveState (loadContent_resume r s) = (if data_saved d then Linked False else Unlinked)
    | _ \<Rightarrow>
        saveState (loadContent_resume r s) = Unlinked
        \<and> text_value (loadContent_resume r s) = text_value s
        \<and> title (loadContent_resume r s) = title s)"
  by (cases r) (simp_all add: loadContent_resume_def Let_def watch_defs link_defs)

text \<open>
  C3. When the request of a save has failed, whatever the state was: the state is
  \<open>Unlinked\<close>, one alert with the failure message has been shown, and buffer, title and
  snapshot are as before.
\<close>

theorem save_failure_unlinks:
  "failed r \<Longrightarrow>
     saveState (handleSaveFile_resume r s) = Unlinked
     \<and> alerts (handleSaveFile_resume r s) = alerts s @ [save_error_message]
     \<and> text_value (handleSaveFile_resume r s) = text_value s
     \<and> title (handleSaveFile_resume r s) = title s
     \<and> lastSavedContent (handleSaveFile_resume r s) = lastSavedContent s"
  by (cases r) (simp_all add: failed_def handleSaveFile_resume_def Let_def watch_defs link_defs)

theorem save_failure_unlinks_witness:
  "failed Fetch_rejected
   \<and> saveState (handleSaveFile_resume Fetch_rejected (init\<lparr>saveState := Linked True\<rparr>)) = Unlinked
   \<and> alerts (handleSaveFile_resume Fetch_rejected (init\<lparr>saveState := Linked True\<rparr>))
       = [save_error_message]"
  using save_failure_unlinks [of Fetch_rejected "init\<lparr>saveState := Linked True\<rparr>"]
  by (simp add: failed_def init_def)

text \<open>
  C4. When the status request of a poll has answered ok, \<^verbatim>\<open>checkLink\<close> calls
  \<^verbatim>\<open>loadContent\<close> if and only if the state is \<open>Linked False\<close>, and what happens then is
  that call; in the states \<open>Linked True\<close> and \<open>Unlinked\<close> buffer, title, snapshot, state,
  requests and frames are as before. When the status request has failed the state is
  \<open>Unlinked\<close> and no load is called.
\<close>

theorem checkLink_loads_iff_clean:
  "(case checkLink_resume Status_ok s of
      (s', k) \<Rightarrow>
        (calls_loadContent k = (saveState s = Linked False))
        \<and> (if saveState s = Linked False
            then s' = fst (loadContent_call Awaited_by_checkLink s)
                 \<and> k = Await_loadContent (snd (loadContent_call Awaited_by_checkLink s))
            else text_value s' = text_value s \<and> title s' = title s
                 \<and> lastSavedContent s' = lastSavedContent s \<and> saveState s' = saveState s
                 \<and> requests s' = requests s \<and> frames s' = frames s))
   \<and> (poll_failed r \<longrightarrow>
         saveState (fst (checkLink_resume r s)) = Unlinked
         \<and> \<not> calls_loadContent (snd (checkLink_resume r s)))"
  by (cases r; cases "saveState s")
     (auto simp: checkLink_resume_def checkLink_finally_def loadContent_call_def
        poll_failed_def calls_loadContent_def link_defs)

theorem checkLink_loads_iff_clean_witness:
  "calls_loadContent (snd (checkLink_resume Status_ok (init\<lparr>saveState := Linked False\<rparr>)))
   \<and> requests (fst (checkLink_resume Status_ok (init\<lparr>saveState := Linked False\<rparr>))) = [GET_content]
   \<and> \<not> calls_loadContent (snd (checkLink_resume Status_ok (init\<lparr>saveState := Linked True\<rparr>)))
   \<and> text_value (fst (checkLink_resume Status_ok (init\<lparr>saveState := Linked True\<rparr>))) = []
   \<and> poll_failed Status_not_ok
   \<and> saveState (fst (checkLink_resume Status_not_ok (init\<lparr>saveState := Linked False\<rparr>))) = Unlinked"
  using checkLink_loads_iff_clean [of "init\<lparr>saveState := Linked False\<rparr>" Status_not_ok]
    checkLink_loads_iff_clean [of "init\<lparr>saveState := Linked True\<rparr>" Status_not_ok]
  by (simp add: init_def poll_failed_def loadContent_call_def split: prod.splits)

subsection \<open>Invariants of the event loop\<close>

lemmas sync_defs = loadContent_call_def loadContent_resume_def handleSaveFile_call_def
  handleSaveFile_resume_def checkLink_call_def checkLink_finally_def checkLink_resume_def
  after_loadContent_def

lemmas step_defs = step_def sync_defs link_defs watch_defs remove_nth_def Let_def

lemma length_filter_remove_nth:
  assumes "i < length xs"
  shows "length (filter P (remove_nth i xs)) + (if P (xs ! i) then 1 else 0) = length (filter P xs)"
proof -
  from assms have "xs = take i xs @ xs ! i # drop (Suc i) xs"
    by (rule id_take_nth_drop)
  then have "filter P xs = filter P (take i xs) @ filter P [xs ! i] @ filter P (drop (Suc i) xs)"
    by (metis append_Cons append_Nil filter_append)
  then show ?thesis
    by (simp add: remove_nth_def)
qed

lemma length_remove_nth: "i < length xs \<Longrightarrow> Suc (length (remove_nth i xs)) = length xs"
  by (simp add: remove_nth_def) 

lemma input_frame_fields:
  "frames (input t s) = frames s" "isLoading (input t s) = isLoading s"
  "timeouts (input t s) = timeouts s"
  by (simp_all add: watch_defs link_defs split: SaveState.splits)

lemma resume_fields:
  "frames (loadContent_resume r s) = frames s" "isLoading (loadContent_resume r s) = False"
  "timeouts (loadContent_resume r s) = timeouts s"
  "requests (loadContent_resume r s) = requests s"
  "frames (handleSaveFile_resume r s) = frames s" "isLoading (handleSaveFile_resume r s) = False"
  "timeouts (handleSaveFile_resume r s) = timeouts s"
  "requests (handleSaveFile_resume r s) = requests s"
  by (cases r; simp add: loadContent_resume_def handleSaveFile_resume_def Let_def flush_watch_text_def watch_text_def link_defs split: SaveState.splits)+

lemma guard_inv_step:
  assumes inv: "guard_inv s"
  shows "guard_inv (step s e)"
proof (cases e)
  case (Input t)
  with inv show ?thesis
    by (simp add: step_def guard_inv_def in_flight_def input_frame_fields)
next
  case Save_requested
  with inv show ?thesis
    by (simp add: step_def guard_inv_def in_flight_def handleSaveFile_call_def is_content_frame_def)
next
  case (Content_settles i r)
  show ?thesis
  proof (cases "i < length (frames s)")
    case False
    with Content_settles inv show ?thesis by (simp add: step_def)
  next
    case True
    note len = length_filter_remove_nth [OF True, of is_content_frame]
    show ?thesis
    proof (cases "frames s ! i")
      case (LoadContent_frame a)
      with Content_settles True inv len show ?thesis
        by (cases a) (auto simp: step_def guard_inv_def in_flight_def resume_fields
            after_loadContent_def checkLink_finally_def is_content_frame_def split: if_splits)
    next
      case HandleSaveFile_frame
      with Content_settles True inv len show ?thesis
        by (auto simp: step_def guard_inv_def in_flight_def resume_fields
            is_content_frame_def split: if_splits)
    next
      case CheckLink_frame
      with Content_settles True inv show ?thesis by (simp add: step_def)
    qed
  qed
next
  case (Status_settles i r)
  show ?thesis
  proof (cases "i < length (frames s) \<and> frames s ! i = CheckLink_frame")
    case False
    with Status_settles inv show ?thesis by (auto simp add: step_def)
  next
    case True
    then have i: "i < length (frames s)" by simp
    note len = length_filter_remove_nth [OF i, of is_content_frame]
    from Status_settles True inv len show ?thesis
      by (cases r)
         (auto simp: step_def guard_inv_def in_flight_def sync_defs link_defs
            is_content_frame_def split: if_splits SaveState.splits)
  qed
next
  case (Timeout_fires i)
  with inv show ?thesis
    by (auto simp: step_def guard_inv_def in_flight_def checkLink_call_def is_content_frame_def)
qed

lemma poll_inv_step:
  assumes inv: "poll_inv s"
  shows "poll_inv (step s e)"
proof (cases e)
  case (Input t)
  with inv show ?thesis
    by (simp add: step_def poll_inv_def polls_running_def input_frame_fields)
next
  case Save_requested
  with inv show ?thesis
    by (simp add: step_def poll_inv_def polls_running_def handleSaveFile_call_def is_poll_frame_def)
next
  case (Content_settles i r)
  show ?thesis
  proof (cases "i < length (frames s)")
    case False
    with Content_settles inv show ?thesis by (simp add: step_def)
  next
    case True
    note len = length_filter_remove_nth [OF True, of is_poll_frame]
    show ?thesis
    proof (cases "frames s ! i")
      case (LoadContent_frame a)
      show ?thesis
      proof (cases a)
        case Awaited_by_onMounted
        with LoadContent_frame Content_settles True inv len show ?thesis
          by (simp add: step_def poll_inv_def polls_running_def resume_fields
              after_loadContent_def is_poll_frame_def)
      next
        case Awaited_by_checkLink
        with LoadContent_frame len
        have "Suc (length (filter is_poll_frame (remove_nth i (frames s))))
                = length (filter is_poll_frame (frames s))"
          by (simp add: is_poll_frame_def)
        moreover from inv have "length (timeouts s) + length (filter is_poll_frame (frames s)) = 1"
          by (simp add: poll_inv_def polls_running_def)
        ultimately have "length (timeouts s) = 0"
          "length (filter is_poll_frame (remove_nth i (frames s))) = 0"
          by arith+
        then have "timeouts s = []" "length (filter is_poll_frame (remove_nth i (frames s))) = 0"
          by simp_all
        with Awaited_by_checkLink LoadContent_frame Content_settles True show ?thesis
          by (simp add: step_def poll_inv_def polls_running_def resume_fields
              after_loadContent_def checkLink_finally_def)
      qed
    next
      case HandleSaveFile_frame
      with Content_settles True inv len show ?thesis
        by (auto simp: step_def poll_inv_def polls_running_def resume_fields
            is_poll_frame_def split: if_splits)
    next
      case CheckLink_frame
      with Content_settles True inv show ?thesis by (simp add: step_def)
    qed
  qed
next
  case (Status_settles i r)
  show ?thesis
  proof (cases "i < length (frames s) \<and> frames s ! i = CheckLink_frame")
    case False
    with Status_settles inv show ?thesis by (auto simp add: step_def)
  next
    case True
    then have i: "i < length (frames s)" by simp
    from True length_filter_remove_nth [OF i, of is_poll_frame]
    have "Suc (length (filter is_poll_frame (remove_nth i (frames s))))
            = length (filter is_poll_frame (frames s))"
      by (simp add: is_poll_frame_def)
    moreover from inv have "length (timeouts s) + length (filter is_poll_frame (frames s)) = 1"
      by (simp add: poll_inv_def polls_running_def)
    ultimately have "length (timeouts s) = 0"
      "length (filter is_poll_frame (remove_nth i (frames s))) = 0"
      by arith+
    then have idle: "timeouts s = []" "filter is_poll_frame (remove_nth i (frames s)) = []"
      by simp_all
    from Status_settles True idle show ?thesis
      by (cases r)
         (auto simp: step_def poll_inv_def polls_running_def sync_defs link_defs
            is_poll_frame_def split: if_splits SaveState.splits)
  qed
next
  case (Timeout_fires i)
  show ?thesis
  proof (cases "i < length (timeouts s)")
    case False
    with Timeout_fires inv show ?thesis by (simp add: step_def)
  next
    case True
    from inv have "length (timeouts s) + length (filter is_poll_frame (frames s)) = 1"
      by (simp add: poll_inv_def polls_running_def)
    with length_remove_nth [OF True]
    have "length (remove_nth i (timeouts s)) = 0" "length (filter is_poll_frame (frames s)) = 0"
      by arith+
    then have "remove_nth i (timeouts s) = []" "filter is_poll_frame (frames s) = []"
      by simp_all
    with Timeout_fires True show ?thesis
      by (simp add: step_def poll_inv_def polls_running_def checkLink_call_def is_poll_frame_def)
  qed
qed

lemma sent_inv_step:
  assumes inv: "sent_inv s"
  shows "sent_inv (step s e)"
proof (cases e)
  case (Input t)
  with inv show ?thesis by (simp add: step_def sent_inv_def input_requests)
next
  case Save_requested
  with inv show ?thesis
    by (simp add: step_def sent_inv_def handleSaveFile_call_def sent_saved_flag_def)
next
  case (Content_settles i r)
  with inv show ?thesis
    by (auto simp: step_def sent_inv_def resume_fields after_loadContent_def checkLink_finally_def
        split: frame.splits awaiter.splits)
next
  case (Status_settles i r)
  with inv show ?thesis
    by (cases r) (auto simp: step_def sent_inv_def sync_defs link_defs sent_saved_flag_def
        split: SaveState.splits)
next
  case (Timeout_fires i)
  with inv show ?thesis
    by (auto simp: step_def sent_inv_def checkLink_call_def sent_saved_flag_def)
qed

lemma run_snoc: "run (es @ [e]) = step (run es) e"
  by (simp add: run_def)

lemma run_Nil: "run [] = onMounted init"
  by (simp add: run_def)

lemma guard_inv_run: "guard_inv (run es)"
proof (induction es rule: rev_induct)
  case Nil
  show ?case
    by (simp add: run_Nil onMounted_def init_def loadContent_call_def checkLink_call_def
        guard_inv_def in_flight_def is_content_frame_def)
next
  case (snoc e es)
  then show ?case by (simp add: run_snoc guard_inv_step)
qed

lemma poll_inv_run: "poll_inv (run es)"
proof (induction es rule: rev_induct)
  case Nil
  show ?case
    by (simp add: run_Nil onMounted_def init_def loadContent_call_def checkLink_call_def
        poll_inv_def polls_running_def is_poll_frame_def)
next
  case (snoc e es)
  then show ?case by (simp add: run_snoc poll_inv_step)
qed

lemma sent_inv_run: "sent_inv (run es)"
proof (induction es rule: rev_induct)
  case Nil
  show ?case
    by (simp add: run_Nil onMounted_def init_def loadContent_call_def checkLink_call_def
        sent_inv_def sent_saved_flag_def)
next
  case (snoc e es)
  then show ?case by (simp add: run_snoc sent_inv_step)
qed

subsection \<open>One operation in flight\<close>

lemma handleSaveFile_call_twice:
  "handleSaveFile_call (handleSaveFile_call s) = handleSaveFile_call s"
  by (simp add: handleSaveFile_call_def)

text \<open>
  C5. After mounting and any sequence of events at most one load or save is in flight;
  while one is, a call of \<^verbatim>\<open>loadContent\<close> returns at once with the state as it was,
  and so does a call of \<^verbatim>\<open>handleSaveFile\<close>: no request, no change. From any state, a
  second save request right after a first changes nothing, so it sends nothing.
\<close>

theorem single_in_flight:
  "in_flight (run es) \<le> 1
   \<and> (0 < in_flight (run es) \<longrightarrow>
         loadContent_call a (run es) = (run es, Settled)
         \<and> handleSaveFile_call (run es) = run es
         \<and> step (run es) Save_requested = run es)
   \<and> step (step s Save_requested) Save_requested = step s Save_requested"
proof -
  have inv: "in_flight (run es) = (if isLoading (run es) then 1 else 0)"
    using guard_inv_run [of es] by (simp add: guard_inv_def)
  then have "in_flight (run es) \<le> 1"
    by simp
  moreover have "loadContent_call a (run es) = (run es, Settled)
      \<and> handleSaveFile_call (run es) = run es \<and> step (run es) Save_requested = run es"
    if "0 < in_flight (run es)"
  proof -
    from that inv have "isLoading (run es)"
      by (simp split: if_splits)
    then show ?thesis
      by (simp add: loadContent_call_def handleSaveFile_call_def step_def)
  qed
  moreover have "step (step s Save_requested) Save_requested = step s Save_requested"
    by (simp add: step_def handleSaveFile_call_twice)
  ultimately show ?thesis by blast
qed

theorem single_in_flight_witness:
  "0 < in_flight (run [])
   \<and> handleSaveFile_call (run []) = run []
   \<and> loadContent_call Awaited_by_checkLink (run []) = (run [], Settled)
   \<and> requests (step (run []) Save_requested) = [GET_content, GET_status]
   \<and> requests (step (step init Save_requested) Save_requested)
        = [POST_content (Post_body [] None False)]"
  using single_in_flight [of "[]" Awaited_by_checkLink init]
  by (simp add: run_def onMounted_def init_def loadContent_call_def checkLink_call_def
      in_flight_def is_content_frame_def step_def handleSaveFile_call_def)

subsection \<open>The poll timer\<close>

lemma status_settles_timeouts:
  assumes "i < length (frames s)" and "frames s ! i = CheckLink_frame"
  shows "timeouts (step s (Status_settles i r))
           = (if r = Status_ok \<and> saveState s = Linked False \<and> \<not> isLoading s
              then timeouts s else timeouts s @ [CHECK_LINK_MS])"
    and "r = Status_ok \<and> saveState s = Linked False \<and> \<not> isLoading s \<Longrightarrow>
           frames (step s (Status_settles i r))
             = remove_nth i (frames s) @ [LoadContent_frame Awaited_by_checkLink]"
  using assms
  by (cases r; cases "saveState s";
      simp add: step_def checkLink_resume_def checkLink_finally_def loadContent_call_def link_defs)+

lemma awaited_load_settles_timeouts:
  assumes "i < length (frames s)" and "frames s ! i = LoadContent_frame Awaited_by_checkLink"
  shows "timeouts (step s (Content_settles i r)) = timeouts s @ [CHECK_LINK_MS]"
  using assms
  by (simp add: step_def after_loadContent_def checkLink_finally_def resume_fields)

lemma timeout_starts_poll:
  assumes "n < length (timeouts s)"
  shows "step s (Timeout_fires n) = checkLink_call (s\<lparr>timeouts := remove_nth n (timeouts s)\<rparr>)"
    and "requests (step s (Timeout_fires n)) = requests s @ [GET_status]"
    and "frames (step s (Timeout_fires n)) = frames s @ [CheckLink_frame]"
    and "timeouts (step s (Timeout_fires n)) = remove_nth n (timeouts s)"
  using assms by (simp_all add: step_def checkLink_call_def)

lemma idle_or_polling:
  "timeouts (run es) = [] \<and> polls_running (run es) = 1
   \<or> timeouts (run es) = [CHECK_LINK_MS] \<and> polls_running (run es) = 0"
proof -
  from poll_inv_run [of es]
  have len: "length (timeouts (run es)) + polls_running (run es) = 1"
    and sub: "set (timeouts (run es)) \<subseteq> {CHECK_LINK_MS}"
    by (simp_all add: poll_inv_def)
  show ?thesis
  proof (cases "timeouts (run es)")
    case Nil
    with len show ?thesis by simp
  next
    case (Cons t ts)
    with len have "ts = []" "polls_running (run es) = 0"
      by simp_all
    moreover from Cons sub have "t = CHECK_LINK_MS"
      by simp
    ultimately show ?thesis
      using Cons by simp
  qed
qed

lemma pending_timeout_fires:
  assumes "timeouts (run es) = [CHECK_LINK_MS]"
  shows "requests (run (es @ [Timeout_fires 0])) = requests (run es) @ [GET_status]"
    and "timeouts (run (es @ [Timeout_fires 0])) = []"
    and "polls_running (run (es @ [Timeout_fires 0])) = 1"
proof -
  from assms have n: "0 < length (timeouts (run es))"
    by simp
  show "requests (run (es @ [Timeout_fires 0])) = requests (run es) @ [GET_status]"
    using timeout_starts_poll(2) [OF n] by (simp add: run_snoc)
  show t: "timeouts (run (es @ [Timeout_fires 0])) = []"
    using timeout_starts_poll(4) [OF n] assms by (simp add: run_snoc remove_nth_def)
  from poll_inv_run [of "es @ [Timeout_fires 0]"] t
  show "polls_running (run (es @ [Timeout_fires 0])) = 1"
    by (simp add: poll_inv_def)
qed

text \<open>
  C6. The delay is 30000 ms. After mounting and any sequence of events there is exactly
  one of a pending timeout and a run of \<^verbatim>\<open>checkLink\<close> that has not reached its finally
  block, and every pending timeout has that delay. When the status request of a poll
  settles, in whatever way, one timeout with that delay is added, unless the poll started a
  load and awaits it; when that awaited load settles, in whatever way, one timeout with that
  delay is added. A pending timeout that fires is a call of \<^verbatim>\<open>checkLink\<close>: the timeout is
  gone, a status request is sent and the poll is suspended at it. So after any sequence of
  events either a poll is running, or one timeout is pending and its firing starts the
  next poll.
\<close>

theorem poll_rescheduled_once:
  "CHECK_LINK_MS = 30000
   \<and> length (timeouts (run es)) + polls_running (run es) = 1
   \<and> set (timeouts (run es)) \<subseteq> {CHECK_LINK_MS}
   \<and> (i < length (frames s) \<and> frames s ! i = CheckLink_frame \<longrightarrow>
         (if r = Status_ok \<and> saveState s = Linked False \<and> \<not> isLoading s
          then timeouts (step s (Status_settles i r)) = timeouts s
               \<and> frames (step s (Status_settles i r))
                   = remove_nth i (frames s) @ [LoadContent_frame Awaited_by_checkLink]
          else timeouts (step s (Status_settles i r)) = timeouts s @ [CHECK_LINK_MS]))
   \<and> (j < length (frames s) \<and> frames s ! j = LoadContent_frame Awaited_by_checkLink \<longrightarrow>
         timeouts (step s (Content_settles j r')) = timeouts s @ [CHECK_LINK_MS])
   \<and> (n < length (timeouts s) \<longrightarrow>
         step s (Timeout_fires n) = checkLink_call (s\<lparr>timeouts := remove_nth n (timeouts s)\<rparr>)
         \<and> requests (step s (Timeout_fires n)) = requests s @ [GET_status]
         \<and> frames (step s (Timeout_fires n)) = frames s @ [CheckLink_frame]
         \<and> timeouts (step s (Timeout_fires n)) = remove_nth n (timeouts s))
   \<and> (timeouts (run es) = [] \<and> polls_running (run es) = 1
       \<or> timeouts (run es) = [CHECK_LINK_MS] \<and> polls_running (run es) = 0
          \<and> requests (run (es @ [Timeout_fires 0])) = requests (run es) @ [GET_status]
          \<and> timeouts (run (es @ [Timeout_fires 0])) = []
          \<and> polls_running (run (es @ [Timeout_fires 0])) = 1)"
proof -
  have "CHECK_LINK_MS = 30000"
    by (simp add: CHECK_LINK_MS_def)
  moreover have "length (timeouts (run es)) + polls_running (run es) = 1"
    "set (timeouts (run es)) \<subseteq> {CHECK_LINK_MS}"
    using poll_inv_run [of es] by (simp_all add: poll_inv_def)
  moreover have "i < length (frames s) \<and> frames s ! i = CheckLink_frame \<longrightarrow>
         (if r = Status_ok \<and> saveState s = Linked False \<and> \<not> isLoading s
          then timeouts (step s (Status_settles i r)) = timeouts s
               \<and> frames (step s (Status_settles i r))
                   = remove_nth i (frames s) @ [LoadContent_frame Awaited_by_checkLink]
          else timeouts (step s (Status_settles i r)) = timeouts s @ [CHECK_LINK_MS])"
  proof (intro impI)
    assume f: "i < length (frames s) \<and> frames s ! i = CheckLink_frame"
    then have i: "i < length (frames s)" and fi: "frames s ! i = CheckLink_frame"
      by simp_all
    show "if r = Status_ok \<and> saveState s = Linked False \<and> \<not> isLoading s
          then timeouts (step s (Status_settles i r)) = timeouts s
               \<and> frames (step s (Status_settles i r))
                   = remove_nth i (frames s) @ [LoadContent_frame Awaited_by_checkLink]
          else timeouts (step s (Status_settles i r)) = timeouts s @ [CHECK_LINK_MS]"
    proof (cases "r = Status_ok \<and> saveState s = Linked False \<and> \<not> isLoading s")
      case True
      with status_settles_timeouts [OF i fi, of r] show ?thesis by auto
    next
      case False
      with status_settles_timeouts(1) [OF i fi, of r] show ?thesis by auto
    qed
  qed
  moreover have "j < length (frames s) \<and> frames s ! j = LoadContent_frame Awaited_by_checkLink \<longrightarrow>
         timeouts (step s (Content_settles j r')) = timeouts s @ [CHECK_LINK_MS]"
    using awaited_load_settles_timeouts [of j s r'] by simp
  moreover have "n < length (timeouts s) \<longrightarrow>
         step s (Timeout_fires n) = checkLink_call (s\<lparr>timeouts := remove_nth n (timeouts s)\<rparr>)
         \<and> requests (step s (Timeout_fires n)) = requests s @ [GET_status]
         \<and> frames (step s (Timeout_fires n)) = frames s @ [CheckLink_frame]
         \<and> timeouts (step s (Timeout_fires n)) = remove_nth n (timeouts s)"
    using timeout_starts_poll [of n s] by blast
  moreover have "timeouts (run es) = [] \<and> polls_running (run es) = 1
       \<or> timeouts (run es) = [CHECK_LINK_MS] \<and> polls_running (run es) = 0
          \<and> requests (run (es @ [Timeout_fires 0])) = requests (run es) @ [GET_status]
          \<and> timeouts (run (es @ [Timeout_fires 0])) = []
          \<and> polls_running (run (es @ [Timeout_fires 0])) = 1"
    using idle_or_polling [of es] pending_timeout_fires [of es] by blast
  ultimately show ?thesis by blast
qed

theorem poll_rescheduled_once_witness:
  "length (timeouts (run [Status_settles (Suc 0) Status_rejected]))
     + polls_running (run [Status_settles (Suc 0) Status_rejected]) = 1
   \<and> timeouts (run [Status_settles (Suc 0) Status_rejected]) = [30000]
   \<and> timeouts (step (run []) (Status_settles (Suc 0) Status_ok)) = [30000]
   \<and> timeouts (step (run [Content_settles 0 (Response_ok (Payload [97] None True))])
        (Status_settles 0 Status_ok)) = []
   \<and> timeouts (step (run [Content_settles 0 (Response_ok (Payload [97] None True)),
                           Status_settles 0 Status_ok])
        (Content_settles 0 Fetch_rejected)) = [30000]
   \<and> requests (run [Status_settles (Suc 0) Status_rejected, Timeout_fires 0])
        = [GET_content, GET_status, GET_status]
   \<and> frames (run [Status_settles (Suc 0) Status_rejected, Timeout_fires 0])
        = [LoadContent_frame Awaited_by_onMounted, CheckLink_frame]
   \<and> timeouts (run [Status_settles (Suc 0) Status_rejected, Timeout_fires 0]) = []
   \<and> polls_running (run [Status_settles (Suc 0) Status_rejected, Timeout_fires 0]) = 1"
proof -
  let ?loaded = "Content_settles 0 (Response_ok (Payload [97] None True))"
  let ?failed = "Status_settles (Suc 0) Status_rejected"
  have r0: "run [] = init\<lparr>isLoading := True, requests := [GET_content, GET_status],
      frames := [LoadContent_frame Awaited_by_onMounted, CheckLink_frame]\<rparr>"
    by (simp add: run_def onMounted_def init_def loadContent_call_def checkLink_call_def)
  have r1: "run [?failed]
      = init\<lparr>isLoading := True, requests := [GET_content, GET_status],
          frames := [LoadContent_frame Awaited_by_onMounted], timeouts := [30000]\<rparr>"
    using run_snoc [of "[]" ?failed]
    by (simp add: r0 init_def step_defs CHECK_LINK_MS_def)
  have r2: "run [?loaded]
      = init\<lparr>text_value := [97], lastSavedContent := [97], saveState := Linked False,
          requests := [GET_content, GET_status], frames := [CheckLink_frame]\<rparr>"
    using run_snoc [of "[]" ?loaded]
    by (simp add: r0 init_def step_defs)
  have r3: "run [?loaded, Status_settles 0 Status_ok]
      = init\<lparr>text_value := [97], lastSavedContent := [97], saveState := Linked False,
          isLoading := True, requests := [GET_content, GET_status, GET_content],
          frames := [LoadContent_frame Awaited_by_checkLink]\<rparr>"
    using run_snoc [of "[?loaded]" "Status_settles 0 Status_ok"]
    by (simp add: r2 init_def step_defs)
  have t1: "timeouts (run [?failed]) = [30000]" "requests (run [?failed]) = [GET_content, GET_status]"
    "frames (run [?failed]) = [LoadContent_frame Awaited_by_onMounted]"
    by (simp_all only: r1) (simp_all add: init_def)
  have a: "length (timeouts (run [?failed])) + polls_running (run [?failed]) = 1"
    using poll_rescheduled_once [where es = "[?failed]"] by simp
  have b: "timeouts (step (run []) (Status_settles (Suc 0) Status_ok)) = [30000]"
    using poll_rescheduled_once [where s = "run []" and i = "Suc 0" and r = Status_ok]
    by (simp add: r0 init_def)
  have c: "timeouts (step (run [?loaded]) (Status_settles 0 Status_ok)) = []"
    using poll_rescheduled_once [where s = "run [?loaded]" and i = 0 and r = Status_ok]
    by (simp add: r2 init_def)
  have d: "timeouts (step (run [?loaded, Status_settles 0 Status_ok])
        (Content_settles 0 Fetch_rejected)) = [30000]"
    using poll_rescheduled_once [where s = "run [?loaded, Status_settles 0 Status_ok]"
        and j = 0 and r' = Fetch_rejected]
    by (simp add: r3 init_def)
  have e: "requests (run ([?failed] @ [Timeout_fires 0])) = [GET_content, GET_status, GET_status]"
    "timeouts (run ([?failed] @ [Timeout_fires 0])) = []"
    "polls_running (run ([?failed] @ [Timeout_fires 0])) = 1"
    using poll_rescheduled_once [where es = "[?failed]"] t1
    by simp_all
  have n: "0 < length (timeouts (run [?failed]))"
    by (simp only: t1) simp
  with poll_rescheduled_once [where s = "run [?failed]" and n = 0 and es = "[]"
        and i = 0 and r = Status_ok and j = 0 and r' = Fetch_rejected]
  have "frames (step (run [?failed]) (Timeout_fires 0)) = frames (run [?failed]) @ [CheckLink_frame]"
    by blast
  then have f: "frames (step (run [?failed]) (Timeout_fires 0))
      = [LoadContent_frame Awaited_by_onMounted, CheckLink_frame]"
    by (simp only: t1) simp
  then have f': "frames (run ([?failed] @ [Timeout_fires 0]))
      = [LoadContent_frame Awaited_by_onMounted, CheckLink_frame]"
    by (simp only: run_snoc)
  from a t1(1) b c d e f' show ?thesis
    by simp
qed

subsection \<open>What a save sends\<close>

text \<open>
  C10. After mounting and any sequence of events no request sent carries saved = true;
  a call of \<^verbatim>\<open>handleSaveFile\<close> that passes the guard sends buffer and title with
  saved = false, whatever the state; and the state after the body of a save response has
  arrived is decided by the saved flag of that body alone.
\<close>

theorem save_sends_saved_false:
  "list_all (\<lambda>q. \<not> sent_saved_flag q) (requests (run es))
   \<and> requests (handleSaveFile_call s)
       = (if isLoading s then requests s
          else requests s @ [POST_content (Post_body (text_value s) (title s) False)])
   \<and> saveState (handleSaveFile_resume (Response_ok d) s)
       = (if data_saved d then Linked False else Unlinked)"
proof -
  have "list_all (\<lambda>q. \<not> sent_saved_flag q) (requests (run es))"
    using sent_inv_run [of es] by (simp add: sent_inv_def)
  moreover have "requests (handleSaveFile_call s)
       = (if isLoading s then requests s
          else requests s @ [POST_content (Post_body (text_value s) (title s) False)])"
    by (simp add: handleSaveFile_call_def)
  moreover have "saveState (handleSaveFile_resume (Response_ok d) s)
       = (if data_saved d then Linked False else Unlinked)"
    by (simp add: handleSaveFile_resume_def Let_def flush_watch_text_def watch_text_def link_defs)
  ultimately show ?thesis by blast
qed

theorem save_sends_saved_false_witness:
  "requests (run [Content_settles 0 (Response_ok (Payload [97] None True)), Save_requested])
     = [GET_content, GET_status, POST_content (Post_body [97] None False)]
   \<and> list_all (\<lambda>q. \<not> sent_saved_flag q)
        (requests (run [Content_settles 0 (Response_ok (Payload [97] None True)),
                        Save_requested]))"
proof -
  let ?loaded = "Content_settles 0 (Response_ok (Payload [97] None True))"
  have r0: "run [] = init\<lparr>isLoading := True, requests := [GET_content, GET_status],
      frames := [LoadContent_frame Awaited_by_onMounted, CheckLink_frame]\<rparr>"
    by (simp add: run_def onMounted_def init_def loadContent_call_def checkLink_call_def)
  have r2: "run [?loaded]
      = init\<lparr>text_value := [97], lastSavedContent := [97], saveState := Linked False,
          requests := [GET_content, GET_status], frames := [CheckLink_frame]\<rparr>"
    using run_snoc [of "[]" ?loaded]
    by (simp add: r0 init_def step_defs)
  have "requests (run [?loaded, Save_requested])
     = [GET_content, GET_status, POST_content (Post_body [97] None False)]"
    using run_snoc [of "[?loaded]" Save_requested]
    by (simp add: r2 init_def step_def handleSaveFile_call_def)
  with save_sends_saved_false [of "[?loaded, Save_requested]"] show ?thesis
    by simp
qed

section \<open>Properties of the page geometry\<close>

subsection \<open>Zoom\<close>

lemma round_even_near: "\<bar>of_int (round_even y) - y\<bar> \<le> 1 / 2"
proof -
  have "of_int \<lfloor>y\<rfloor> \<le> y" "y < of_int \<lfloor>y\<rfloor> + 1"
    by linarith+
  then show ?thesis
    unfolding round_even_def Let_def by (auto simp: abs_le_iff)
qed

lemma round_even_of_int: "round_even (of_int k) = k"
  by (simp add: round_even_def)

lemma round_even_ge:
  assumes "of_int k \<le> y"
  shows "k \<le> round_even y"
proof -
  from assms have "k \<le> \<lfloor>y\<rfloor>" by (simp add: le_floor_iff)
  then show ?thesis
    unfolding round_even_def Let_def by auto
qed

lemma round_even_le:
  assumes "y \<le> of_int k"
  shows "round_even y \<le> k"
proof (cases "y = of_int k")
  case True
  then show ?thesis by (simp add: round_even_of_int)
next
  case False
  with assms have "y < of_int k" by simp
  then have "\<lfloor>y\<rfloor> < k" by (simp add: floor_less_iff)
  then show ?thesis
    unfolding round_even_def Let_def by auto
qed

lemma expo_bounds:
  assumes "x \<noteq> 0"
  shows "2 powi (expo x) \<le> \<bar>x\<bar>" and "\<bar>x\<bar> < 2 powi (expo x + 1)"
proof -
  obtain p q where pq: "quotient_of \<bar>x\<bar> = (p, q)"
    by (cases "quotient_of \<bar>x\<bar>")
  then have q: "0 < q" and x: "\<bar>x\<bar> = of_int p / of_int q"
    by (simp_all add: quotient_of_denom_pos quotient_of_div)
  from assms have "0 < \<bar>x\<bar>" by simp
  with x q have p: "0 < p"
    by (simp add: zero_less_divide_iff)
  define a where "a = bitlen p"
  define b where "b = bitlen q"
  from p q have a1: "1 \<le> a" and b1: "1 \<le> b"
    using bitlen_eq_zero_iff [of p] bitlen_eq_zero_iff [of q] bitlen_nonneg [of p] bitlen_nonneg [of q]
    by (simp_all add: a_def b_def)
  from bitlen_bounds [OF p] have "(2::int) ^ nat (a - 1) \<le> p" "p < 2 ^ nat a"
    by (simp_all add: a_def)
  then have "(of_int ((2::int) ^ nat (a - 1)) :: rat) \<le> of_int p" "(of_int p :: rat) < of_int (2 ^ nat a)"
    by (simp_all only: of_int_le_iff of_int_less_iff)
  with a1 have pa: "(2::rat) powi (a - 1) \<le> of_int p" "(of_int p :: rat) < 2 powi a"
    by (simp_all add: power_int_def)
  from bitlen_bounds [OF q] have "(2::int) ^ nat (b - 1) \<le> q" "q < 2 ^ nat b"
    by (simp_all add: b_def)
  then have "(of_int ((2::int) ^ nat (b - 1)) :: rat) \<le> of_int q" "(of_int q :: rat) < of_int (2 ^ nat b)"
    by (simp_all only: of_int_le_iff of_int_less_iff)
  with b1 have qb: "(2::rat) powi (b - 1) \<le> of_int q" "(of_int q :: rat) < 2 powi b"
    by (simp_all add: power_int_def)
  define d where "d = a - b"
  have qpos: "(0::rat) < of_int q" using q by simp
  have up: "\<bar>x\<bar> < 2 powi (d + 1)"
  proof -
    have "of_int p < (2::rat) powi a" by (rule pa)
    also have "\<dots> = 2 powi (d + 1) * 2 powi (b - 1)"
      by (simp add: d_def power_int_add [symmetric])
    also have "\<dots> \<le> 2 powi (d + 1) * of_int q"
      using qb(1) by (simp add: mult_left_mono)
    finally show ?thesis
      using qpos by (simp add: x pos_divide_less_eq)
  qed
  have low: "2 powi (d - 1) < \<bar>x\<bar>"
  proof -
    have "2 powi (d - 1) * of_int q < (2::rat) powi (d - 1) * 2 powi b"
      using qb(2) by (simp add: mult_strict_left_mono)
    also have "\<dots> = 2 powi (a - 1)"
      by (simp add: d_def power_int_add [symmetric])
    also have "\<dots> \<le> of_int p" by (rule pa)
    finally show ?thesis
      using qpos by (simp add: x pos_less_divide_eq)
  qed
  have e: "expo x = (if 2 powi d \<le> \<bar>x\<bar> then d else d - 1)"
    by (simp add: expo_def pq Let_def d_def a_def b_def)
  show "2 powi (expo x) \<le> \<bar>x\<bar>"
    using low by (simp add: e)
  show "\<bar>x\<bar> < 2 powi (expo x + 1)"
    using up by (auto simp add: e)
qed

lemma expo_ge: "x \<noteq> 0 \<Longrightarrow> 2 powi e \<le> \<bar>x\<bar> \<Longrightarrow> e \<le> expo x"
proof -
  assume "x \<noteq> 0" and "2 powi e \<le> \<bar>x\<bar>"
  with expo_bounds(2) [of x] have lt: "(2::rat) powi e < 2 powi (expo x + 1)"
    by simp
  have "e < expo x + 1"
  proof (rule ccontr)
    assume "\<not> e < expo x + 1"
    then have "expo x + 1 \<le> e" by simp
    then have "(2::rat) powi (expo x + 1) \<le> 2 powi e"
      by (intro power_int_increasing) simp_all
    with lt show False by simp
  qed
  then show ?thesis by simp
qed

lemma expo_le: "x \<noteq> 0 \<Longrightarrow> \<bar>x\<bar> < 2 powi (e + 1) \<Longrightarrow> expo x \<le> e"
proof -
  assume "x \<noteq> 0" and "\<bar>x\<bar> < 2 powi (e + 1)"
  with expo_bounds(1) [of x] have lt: "(2::rat) powi (expo x) < 2 powi (e + 1)"
    by simp
  have "expo x < e + 1"
  proof (rule ccontr)
    assume "\<not> expo x < e + 1"
    then have "e + 1 \<le> expo x" by simp
    then have "(2::rat) powi (e + 1) \<le> 2 powi (expo x)"
      by (intro power_int_increasing) simp_all
    with lt show False by simp
  qed
  then show ?thesis by simp
qed

lemma ulp_pos: "0 < ulp x"
  by (simp add: ulp_def)

lemma double_round_ulp: "x \<noteq> 0 \<Longrightarrow> double_round x = of_int (round_even (x / ulp x)) * ulp x"
  by (simp add: double_round_def)

lemma double_round_ge:
  assumes "x \<noteq> 0" and "of_int m * ulp x \<le> x"
  shows "of_int m * ulp x \<le> double_round x"
proof -
  from assms(2) ulp_pos [of x] have "of_int m \<le> x / ulp x"
    by (simp add: pos_le_divide_eq)
  then have "m \<le> round_even (x / ulp x)"
    by (rule round_even_ge)
  then have "(of_int m :: rat) \<le> of_int (round_even (x / ulp x))"
    by simp
  with ulp_pos [of x] show ?thesis
    by (simp add: double_round_ulp assms(1))
qed

lemma double_round_le:
  assumes "x \<noteq> 0" and "x \<le> of_int m * ulp x"
  shows "double_round x \<le> of_int m * ulp x"
proof -
  from assms(2) ulp_pos [of x] have "x / ulp x \<le> of_int m"
    by (simp add: pos_divide_le_eq)
  then have "round_even (x / ulp x) \<le> m"
    by (rule round_even_le)
  then have "(of_int (round_even (x / ulp x)) :: rat) \<le> of_int m"
    by simp
  with ulp_pos [of x] show ?thesis
    by (simp add: double_round_ulp assms(1))
qed

lemma double_round_near: "\<bar>double_round x - x\<bar> \<le> ulp x / 2"
proof (cases "x = 0")
  case True
  then show ?thesis using ulp_pos [of x] by (simp add: double_round_def)
next
  case False
  have "\<bar>of_int (round_even (x / ulp x)) - x / ulp x\<bar> \<le> 1 / 2"
    by (rule round_even_near)
  then have "\<bar>of_int (round_even (x / ulp x)) - x / ulp x\<bar> * ulp x \<le> 1 / 2 * ulp x"
    using ulp_pos [of x] by (simp only: mult_le_cancel_right_pos)
  moreover have "\<bar>of_int (round_even (x / ulp x)) - x / ulp x\<bar> * ulp x
      = \<bar>of_int (round_even (x / ulp x)) * ulp x - x\<bar>"
  proof -
    have "(of_int (round_even (x / ulp x)) - x / ulp x) * ulp x
        = of_int (round_even (x / ulp x)) * ulp x - x"
      using ulp_pos [of x] by (simp add: left_diff_distrib)
    then have "\<bar>of_int (round_even (x / ulp x)) * ulp x - x\<bar>
        = \<bar>of_int (round_even (x / ulp x)) - x / ulp x\<bar> * \<bar>ulp x\<bar>"
      by (simp only: abs_mult [symmetric])
    with ulp_pos [of x] show ?thesis by simp
  qed
  ultimately show ?thesis
    by (simp add: double_round_ulp False)
qed


lemma pow_expo_ulp: "2 powi (expo x) = of_int (2 ^ 52) * ulp x"
proof -
  have "expo x = 52 + (expo x - 52)" by simp
  then have "(2::rat) powi (expo x) = 2 powi (52 + (expo x - 52))" by (rule arg_cong)
  also have "\<dots> = 2 powi 52 * 2 powi (expo x - 52)"
    by (rule power_int_add) simp
  finally show ?thesis by (simp add: ulp_def)
qed

lemma pow_expo_ulp': "2 powi (expo x + 1) = of_int (2 ^ 53) * ulp x"
proof -
  have "expo x + 1 = 53 + (expo x - 52)" by simp
  then have "(2::rat) powi (expo x + 1) = 2 powi (53 + (expo x - 52))" by (rule arg_cong)
  also have "\<dots> = 2 powi 53 * 2 powi (expo x - 52)"
    by (rule power_int_add) simp
  finally show ?thesis by (simp add: ulp_def)
qed

lemma double_round_ge_pow: "0 < x \<Longrightarrow> 2 powi (expo x) \<le> double_round x"
  using expo_bounds(1) [of x] double_round_ge [of x "2 ^ 52"]
  by (simp only: pow_expo_ulp) simp

lemma double_round_le_pow: "0 < x \<Longrightarrow> double_round x \<le> 2 powi (expo x + 1)"
  using expo_bounds(2) [of x] double_round_le [of x "2 ^ 53"]
  by (simp only: pow_expo_ulp') simp

lemma double_round_nonpos: "x \<le> 0 \<Longrightarrow> double_round x \<le> 0"
  using double_round_le [of x 0] by (cases "x = 0") (simp_all add: double_round_def)

lemma double_round_ge_3:
  assumes "3 \<le> x"
  shows "3 \<le> double_round x"
proof -
  from assms have x: "0 < x" "x \<noteq> 0" by simp_all
  have "(2::rat) powi 1 \<le> \<bar>x\<bar>" using assms by simp
  with x have e: "1 \<le> expo x" by (intro expo_ge)
  show ?thesis
  proof (cases "expo x = 1")
    case True
    then have u: "ulp x = 1 / 2 ^ 51" by (simp add: ulp_def power_int_minus_divide)
    have "of_int (3 * 2 ^ 51) * ulp x \<le> double_round x"
      using assms by (intro double_round_ge x) (simp add: u)
    then show ?thesis by (simp add: u)
  next
    case False
    with e have "2 \<le> expo x" by simp
    then have "(2::rat) powi 2 \<le> 2 powi (expo x)"
      by (intro power_int_increasing) simp_all
    with double_round_ge_pow [OF x(1)] show ?thesis by simp
  qed
qed

lemma double_round_le_3:
  assumes "x \<le> 3"
  shows "double_round x \<le> 3"
proof (cases "0 < x")
  case False
  then have "double_round x \<le> 0" by (intro double_round_nonpos) simp
  then show ?thesis by simp
next
  case True
  then have x: "x \<noteq> 0" by simp
  have "\<bar>x\<bar> < 2 powi (1 + 1)" using assms True by simp
  with x have e: "expo x \<le> 1" by (intro expo_le)
  show ?thesis
  proof (cases "expo x = 1")
    case True
    then have u: "ulp x = 1 / 2 ^ 51" by (simp add: ulp_def power_int_minus_divide)
    have "double_round x \<le> of_int (3 * 2 ^ 51) * ulp x"
      using assms by (intro double_round_le x) (simp add: u)
    then show ?thesis by (simp add: u)
  next
    case False
    with e have "expo x + 1 \<le> 1" by simp
    then have "(2::rat) powi (expo x + 1) \<le> 2 powi 1"
      by (intro power_int_increasing) simp_all
    with double_round_le_pow [OF True] show ?thesis by simp
  qed
qed

lemma double_round_ge_half:
  assumes "1 / 2 \<le> x"
  shows "1 / 2 \<le> double_round x"
proof -
  from assms have x: "0 < x" "x \<noteq> 0" by simp_all
  have "(2::rat) powi (- 1) \<le> \<bar>x\<bar>" using assms by (simp add: power_int_minus_divide)
  with x have "- 1 \<le> expo x" by (intro expo_ge)
  then have "(2::rat) powi (- 1) \<le> 2 powi (expo x)"
    by (intro power_int_increasing) simp_all
  with double_round_ge_pow [OF x(1)] show ?thesis by (simp add: power_int_minus_divide)
qed

lemma double_round_le_half:
  assumes "x \<le> 1 / 2"
  shows "double_round x \<le> 1 / 2"
proof (cases "0 < x")
  case False
  then have "double_round x \<le> 0" by (intro double_round_nonpos) simp
  then show ?thesis by simp
next
  case True
  then have x: "x \<noteq> 0" by simp
  have "\<bar>x\<bar> < 2 powi (- 1 + 1)" using assms True by simp
  with x have e: "expo x \<le> - 1" by (intro expo_le)
  show ?thesis
  proof (cases "expo x = - 1")
    case True
    then have u: "ulp x = 1 / 2 ^ 53" by (simp add: ulp_def power_int_minus_divide)
    have "double_round x \<le> of_int (2 ^ 52) * ulp x"
      using assms by (intro double_round_le x) (simp add: u)
    then show ?thesis by (simp add: u)
  next
    case False
    with e have "expo x + 1 \<le> - 1" by simp
    then have "(2::rat) powi (expo x + 1) \<le> 2 powi (- 1)"
      by (intro power_int_increasing) simp_all
    with double_round_le_pow [OF True] show ?thesis by (simp add: power_int_minus_divide)
  qed
qed

lemma double_round_near_small:
  assumes "\<bar>x\<bar> < 4"
  shows "\<bar>double_round x - x\<bar> \<le> 1 / 2 ^ 52"
proof (cases "x = 0")
  case True
  then show ?thesis by (simp add: double_round_def)
next
  case False
  have "\<bar>x\<bar> < 2 powi (1 + 1)" using assms by simp
  with False have "expo x \<le> 1" by (intro expo_le)
  then have "expo x - 52 \<le> - 51" by simp
  then have "(2::rat) powi (expo x - 52) \<le> 2 powi (- 51)"
    by (intro power_int_increasing) simp_all
  then have "ulp x / 2 \<le> 1 / 2 ^ 52"
    by (simp add: ulp_def power_int_minus_divide)
  with double_round_near [of x] show ?thesis by simp
qed


lemma toFixed2_nearest:
  assumes "0 \<le> c" and "c \<le> 3" and "\<bar>c - of_int n / 100\<bar> < 1 / 200"
  shows "toFixed2 c = of_int n / 100"
proof -
  from assms(3) have "of_int n \<le> c * 100 + 1 / 2" "c * 100 + 1 / 2 < of_int n + 1"
    by linarith+
  then have "\<lfloor>c * 100 + 1 / 2\<rfloor> = n"
    by (intro floor_unique)
  moreover from assms(1,2) have "\<not> 10 ^ 21 \<le> \<bar>c\<bar>" "\<not> c < 0"
    by simp_all
  ultimately show ?thesis
    by (simp add: toFixed2_def)
qed

lemma toFixed2_range:
  assumes "1 / 2 \<le> c" and "c \<le> 3"
  shows "\<exists>k. 50 \<le> k \<and> k \<le> 300 \<and> toFixed2 c = of_int k / 100"
proof -
  from assms have "\<not> 10 ^ 21 \<le> \<bar>c\<bar>" "\<not> c < 0"
    by simp_all
  then have "toFixed2 c = of_int \<lfloor>c * 100 + 1 / 2\<rfloor> / 100"
    by (simp add: toFixed2_def)
  moreover from assms have "50 \<le> \<lfloor>c * 100 + 1 / 2\<rfloor>" "\<lfloor>c * 100 + 1 / 2\<rfloor> \<le> 300"
    by (simp_all add: le_floor_iff floor_le_iff)
  ultimately show ?thesis by blast
qed

lemma clamp_near:
  assumes "1 / 2 \<le> t" and "t \<le> 3"
  shows "\<bar>max (1 / 2) (min 3 y) - t\<bar> \<le> \<bar>y - (t::rat)\<bar>"
  using assms by (simp add: max_def min_def abs_le_iff) linarith

lemma two_decimal_double:
  assumes "50 \<le> k" and "k \<le> 300"
  shows "1 / 2 \<le> double_round (of_int k / 100)" and "double_round (of_int k / 100) \<le> 3"
    and "\<bar>double_round (of_int k / 100) - of_int k / 100\<bar> \<le> 1 / 2 ^ 52"
proof -
  from assms have "(1 / 2 :: rat) \<le> of_int k / 100" "(of_int k / 100 :: rat) \<le> 3"
    by simp_all
  then show "1 / 2 \<le> double_round (of_int k / 100)" "double_round (of_int k / 100) \<le> 3"
    by (simp_all only: double_round_ge_half double_round_le_3)
  from assms have "\<bar>of_int k / 100 :: rat\<bar> < 4" by simp
  then show "\<bar>double_round (of_int k / 100) - of_int k / 100\<bar> \<le> 1 / 2 ^ 52"
    by (rule double_round_near_small)
qed

lemma changeZoomLevel_two_decimals:
  assumes k: "50 \<le> k" "k \<le> 300" and kj: "50 \<le> k + j" "k + j \<le> 300"
  shows "changeZoomLevel (double_round (of_int j / 100)) (double_round (of_int k / 100))
           = double_round (of_int (k + j) / 100)"
proof -
  define z where "z = double_round (of_int k / 100)"
  define d where "d = double_round (of_int j / 100)"
  define t where "t = (of_int (k + j) / 100 :: rat)"
  from k kj have "\<bar>of_int j / 100 :: rat\<bar> < 4" by simp
  then have dj: "\<bar>d - of_int j / 100\<bar> \<le> 1 / 2 ^ 52"
    unfolding d_def by (rule double_round_near_small)
  have zk: "\<bar>z - of_int k / 100\<bar> \<le> 1 / 2 ^ 52"
    unfolding z_def by (rule two_decimal_double(3) [OF k])
  have t: "1 / 2 \<le> t" "t \<le> 3"
    using kj by (simp_all add: t_def)
  have "t = of_int k / 100 + of_int j / 100"
    by (simp add: t_def add_divide_distrib)
  with dj zk have sum: "\<bar>z + d - t\<bar> \<le> 2 / 2 ^ 52"
    by linarith
  have small: "(2 / 2 ^ 52 :: rat) < 1"
    by simp
  with sum t have "\<bar>z + d\<bar> < 4"
    by linarith
  then have "\<bar>double_round (z + d) - (z + d)\<bar> \<le> 1 / 2 ^ 52"
    by (rule double_round_near_small)
  with sum have "\<bar>double_round (z + d) - t\<bar> \<le> 3 / 2 ^ 52"
    by linarith
  with clamp_near [OF t, of "double_round (z + d)"]
  have c: "\<bar>max (1 / 2) (min 3 (double_round (z + d))) - t\<bar> \<le> 3 / 2 ^ 52"
    by linarith
  have "(3 / 2 ^ 52 :: rat) < 1 / 200" by simp
  with c have "\<bar>max (1 / 2) (min 3 (double_round (z + d))) - of_int (k + j) / 100\<bar> < 1 / 200"
    unfolding t_def by linarith
  then have "toFixed2 (max (1 / 2) (min 3 (double_round (z + d)))) = of_int (k + j) / 100"
    by (intro toFixed2_nearest) simp_all
  then show ?thesis
    unfolding changeZoomLevel_def z_def d_def by (simp only:)
qed

lemma double_round_quarter: "double_round (1 / 4) = 1 / 4" "double_round (- (1 / 4)) = - (1 / 4)"
  by code_simp+

lemma changeZoomLevel_range:
  "1 / 2 \<le> changeZoomLevel delta z" "changeZoomLevel delta z \<le> 3"
  "\<exists>k. 50 \<le> k \<and> k \<le> 300 \<and> changeZoomLevel delta z = double_round (of_int k / 100)"
proof -
  let ?c = "max (1 / 2) (min 3 (double_round (z + delta)))"
  have "1 / 2 \<le> ?c" "?c \<le> 3" by simp_all
  then obtain k where k: "50 \<le> k" "k \<le> 300" "toFixed2 ?c = of_int k / 100"
    using toFixed2_range by blast
  then have eq: "changeZoomLevel delta z = double_round (of_int k / 100)"
    unfolding changeZoomLevel_def by (simp only:)
  with k show "\<exists>k. 50 \<le> k \<and> k \<le> 300 \<and> changeZoomLevel delta z = double_round (of_int k / 100)"
    by blast
  from two_decimal_double(1,2) [OF k(1,2)] eq
  show "1 / 2 \<le> changeZoomLevel delta z" "changeZoomLevel delta z \<le> 3"
    by simp_all
qed

lemma double_round_bounds: "double_round 3 = 3" "double_round (1 / 2) = 1 / 2"
  by code_simp+

lemma toFixed2_bounds: "toFixed2 3 = 3" "toFixed2 (1 / 2) = 1 / 2"
  by (simp_all add: toFixed2_nearest [of _ 300] toFixed2_nearest [of _ 50])

lemma changeZoomLevel_at_bounds:
  "3 \<le> z + delta \<Longrightarrow> changeZoomLevel delta z = 3"
  "z + delta \<le> 1 / 2 \<Longrightarrow> changeZoomLevel delta z = 1 / 2"
proof -
  assume "3 \<le> z + delta"
  then have "3 \<le> double_round (z + delta)" by (rule double_round_ge_3)
  then show "changeZoomLevel delta z = 3"
    by (simp add: changeZoomLevel_def min_absorb1 toFixed2_bounds double_round_bounds)
next
  assume "z + delta \<le> 1 / 2"
  then have "double_round (z + delta) \<le> 1 / 2" by (rule double_round_le_half)
  then show "changeZoomLevel delta z = 1 / 2"
    by (simp add: changeZoomLevel_def max_absorb1 toFixed2_bounds double_round_bounds)
qed

text \<open>
  The sum is rounded before it is clamped and written: 1 plus the double of 0.005 is the
  double just below 1.005, so the zoom stays 1.
\<close>

lemma changeZoomLevel_sum_rounded: "changeZoomLevel (double_round (1 / 200)) 1 = 1"
  by code_simp

text \<open>
  C7, as the code has it. \<^verbatim>\<open>changeZoomLevel\<close> yields a value between 0.5 and 3 that is
  the double of a number with two decimal places, exactly 3 when zoom plus delta is at
  least 3 and exactly 0.5 when it is at most 0.5. When zoom and delta are the doubles of
  numbers with two decimal places and their decimal sum lies between 0.5 and 3, the result
  is the double of that sum. So from every zoom level that is the double of such a number,
  a step of +0.25 followed by one of -0.25 returns the level itself when the level is at
  most 2.75, and a step of -0.25 followed by one of +0.25 returns it when the level is at
  least 0.75. \<^verbatim>\<open>resetZoomLevel\<close> yields 1.
\<close>

theorem changeZoomLevel_clamps_and_returns:
  "1 / 2 \<le> changeZoomLevel delta z \<and> changeZoomLevel delta z \<le> 3
   \<and> (\<exists>n. 50 \<le> n \<and> n \<le> 300 \<and> changeZoomLevel delta z = double_round (of_int n / 100))
   \<and> (3 \<le> z + delta \<longrightarrow> changeZoomLevel delta z = 3)
   \<and> (z + delta \<le> 1 / 2 \<longrightarrow> changeZoomLevel delta z = 1 / 2)
   \<and> (50 \<le> k \<and> k \<le> 300 \<and> 50 \<le> k + j \<and> k + j \<le> 300 \<longrightarrow>
         changeZoomLevel (double_round (of_int j / 100)) (double_round (of_int k / 100))
           = double_round (of_int (k + j) / 100))
   \<and> (50 \<le> k \<and> k \<le> 275 \<longrightarrow>
         changeZoomLevel (- (1 / 4)) (changeZoomLevel (1 / 4) (double_round (of_int k / 100)))
           = double_round (of_int k / 100))
   \<and> (75 \<le> k \<and> k \<le> 300 \<longrightarrow>
         changeZoomLevel (1 / 4) (changeZoomLevel (- (1 / 4)) (double_round (of_int k / 100)))
           = double_round (of_int k / 100))
   \<and> resetZoomLevel z = 1"
proof (intro conjI impI)
  show "1 / 2 \<le> changeZoomLevel delta z" "changeZoomLevel delta z \<le> 3"
    "\<exists>n. 50 \<le> n \<and> n \<le> 300 \<and> changeZoomLevel delta z = double_round (of_int n / 100)"
    by (rule changeZoomLevel_range)+
  show "changeZoomLevel delta z = 3" if "3 \<le> z + delta"
    using that by (rule changeZoomLevel_at_bounds)
  show "changeZoomLevel delta z = 1 / 2" if "z + delta \<le> 1 / 2"
    using that by (rule changeZoomLevel_at_bounds)
  show "changeZoomLevel (double_round (of_int j / 100)) (double_round (of_int k / 100))
           = double_round (of_int (k + j) / 100)"
    if "50 \<le> k \<and> k \<le> 300 \<and> 50 \<le> k + j \<and> k + j \<le> 300"
    using that by (intro changeZoomLevel_two_decimals) simp_all
  show "changeZoomLevel (- (1 / 4)) (changeZoomLevel (1 / 4) (double_round (of_int k / 100)))
           = double_round (of_int k / 100)"
    if "50 \<le> k \<and> k \<le> 275"
  proof -
    from that have "changeZoomLevel (double_round (of_int 25 / 100)) (double_round (of_int k / 100))
        = double_round (of_int (k + 25) / 100)"
      by (intro changeZoomLevel_two_decimals) simp_all
    moreover from that
    have "changeZoomLevel (double_round (of_int (- 25) / 100)) (double_round (of_int (k + 25) / 100))
        = double_round (of_int (k + 25 + - 25) / 100)"
      by (intro changeZoomLevel_two_decimals) simp_all
    ultimately show ?thesis
      by (simp add: double_round_quarter)
  qed
  show "changeZoomLevel (1 / 4) (changeZoomLevel (- (1 / 4)) (double_round (of_int k / 100)))
           = double_round (of_int k / 100)"
    if "75 \<le> k \<and> k \<le> 300"
  proof -
    from that
    have "changeZoomLevel (double_round (of_int (- 25) / 100)) (double_round (of_int k / 100))
        = double_round (of_int (k + - 25) / 100)"
      by (intro changeZoomLevel_two_decimals) simp_all
    moreover from that
    have "changeZoomLevel (double_round (of_int 25 / 100)) (double_round (of_int (k + - 25) / 100))
        = double_round (of_int (k + - 25 + 25) / 100)"
      by (intro changeZoomLevel_two_decimals) simp_all
    ultimately show ?thesis
      by (simp add: double_round_quarter)
  qed
  show "resetZoomLevel z = 1"
    by (simp add: resetZoomLevel_def)
qed

theorem changeZoomLevel_clamps_and_returns_witness:
  "changeZoomLevel (1 / 4) 3 = 3
   \<and> changeZoomLevel (- (1 / 4)) (1 / 2) = 1 / 2
   \<and> changeZoomLevel (1 / 4) 1 = 5 / 4
   \<and> changeZoomLevel (- (1 / 4)) (changeZoomLevel (1 / 4) 1) = 1
   \<and> changeZoomLevel (1 / 4) (changeZoomLevel (- (1 / 4)) 1) = 1"
proof -
  have d: "double_round 1 = 1" "double_round (5 / 4) = 5 / 4"
    by code_simp+
  from changeZoomLevel_clamps_and_returns [where z = 3 and delta = "1 / 4" and k = 100 and j = 25]
  have a: "changeZoomLevel (1 / 4) 3 = 3"
    "changeZoomLevel (1 / 4) 1 = 5 / 4"
    "changeZoomLevel (- (1 / 4)) (changeZoomLevel (1 / 4) 1) = 1"
    "changeZoomLevel (1 / 4) (changeZoomLevel (- (1 / 4)) 1) = 1"
    by (simp_all add: d double_round_quarter)
  from changeZoomLevel_clamps_and_returns [where z = "1 / 2" and delta = "- (1 / 4)"]
  have b: "changeZoomLevel (- (1 / 4)) (1 / 2) = 1 / 2"
    by simp
  from a b show ?thesis
    by blast
qed

text \<open>
  At the upper bound the first step is clamped and the pair does not return: from 3, a step
  of +0.25 and one of -0.25 end at 2.75.
\<close>

theorem changeZoomLevel_pair_at_bound:
  "changeZoomLevel (- (1 / 4)) (changeZoomLevel (1 / 4) 3) = 11 / 4
   \<and> changeZoomLevel (- (1 / 4)) (changeZoomLevel (1 / 4) 3) \<noteq> 3"
  by code_simp

subsection \<open>Page height\<close>

text \<open>
  Without the textarea (\<^verbatim>\<open>pageRef.value\<close> is null) \<^verbatim>\<open>syncPageHeight\<close> returns at once;
  in either case a page height that was at least \<open>HEIGHT\<close> stays so.
\<close>

lemma syncPageHeight_unmounted: "pageRef d = None \<Longrightarrow> syncPageHeight d h = (d, h)"
  by (simp add: syncPageHeight_def)

lemma syncPageHeight_keeps_minimum: "HEIGHT \<le> h \<Longrightarrow> HEIGHT \<le> snd (syncPageHeight d h)"
  by (cases "pageRef d") (simp_all add: syncPageHeight_def Let_def)

lemma syncPageHeight_restores_scrollTop:
  "scrollWrapperRef (fst (syncPageHeight d h)) = scrollWrapperRef d"
  by (cases "pageRef d"; cases "scrollWrapperRef d") (simp_all add: syncPageHeight_def Let_def)

text \<open>
  C8. With the textarea mounted, \<^verbatim>\<open>syncPageHeight\<close> sets the page height to the larger of
  the measured height and \<open>HEIGHT\<close>, which is 1123: the result is at least \<open>HEIGHT\<close>, at
  least the measured height, and never zero; it is exactly \<open>HEIGHT\<close> whenever the measured
  height is not larger, as for an empty textarea. The height the component starts with is
  \<open>HEIGHT\<close> too.
\<close>

theorem syncPageHeight_at_least_nominal:
  "pageRef d = Some page \<Longrightarrow>
     snd (syncPageHeight d h) = max (scrollHeight page) HEIGHT
     \<and> HEIGHT \<le> snd (syncPageHeight d h)
     \<and> scrollHeight page \<le> snd (syncPageHeight d h)
     \<and> 0 < snd (syncPageHeight d h)
     \<and> (scrollHeight page \<le> HEIGHT \<longrightarrow> snd (syncPageHeight d h) = HEIGHT)
     \<and> HEIGHT = 1123 \<and> pageHeightPx_init = HEIGHT"
  by (simp add: syncPageHeight_def Let_def HEIGHT_def pageHeightPx_init_def)

theorem syncPageHeight_at_least_nominal_witness:
  "snd (syncPageHeight
          \<lparr>pageRef = Some \<lparr>scrollHeight = 0, style_height = Height_px 1123\<rparr>,
           scrollWrapperRef = Some 40\<rparr> 1123) = 1123
   \<and> snd (syncPageHeight
          \<lparr>pageRef = Some \<lparr>scrollHeight = 2000, style_height = Height_px 1123\<rparr>,
           scrollWrapperRef = None\<rparr> 1123) = 2000"
  using syncPageHeight_at_least_nominal
      [of "\<lparr>pageRef = Some \<lparr>scrollHeight = 0, style_height = Height_px 1123\<rparr>,
            scrollWrapperRef = Some 40\<rparr>"
          "\<lparr>scrollHeight = 0, style_height = Height_px 1123\<rparr>" 1123]
    syncPageHeight_at_least_nominal
      [of "\<lparr>pageRef = Some \<lparr>scrollHeight = 2000, style_height = Height_px 1123\<rparr>,
            scrollWrapperRef = None\<rparr>"
          "\<lparr>scrollHeight = 2000, style_height = Height_px 1123\<rparr>" 1123]
  by (simp add: HEIGHT_def pageHeightPx_init_def)

section \<open>Properties of the export name\<close>

text \<open>What \<^verbatim>\<open>purifyFilename\<close> does achieve: none of the eight characters of its class is left.\<close>

lemma purifyFilename_class: "c \<in> set (purifyFilename raw) \<Longrightarrow> c \<notin> set purify_class"
  by (auto simp: purifyFilename_def purify_class_def)

text \<open>The class is the set of path separators and reserved characters but for the backslash.\<close>

lemma purify_class_but_backslash:
  "set path_separators \<union> set reserved_characters = insert 92 (set purify_class)"
  "92 \<notin> set purify_class"
  by (auto simp: path_separators_def reserved_characters_def purify_class_def)

text \<open>
  C9 at a title the code lets through. The user answers the title prompt with the three
  characters a, backslash, b. \<^verbatim>\<open>handleChangedTitle\<close> stores them unchanged, and the
  download is named with them: the file name holds a backslash, a path separator. The
  same answer with a slash in place of the backslash is stored with an underscore.
\<close>

theorem downloadFilename_keeps_backslash:
  "handleChangedTitle None (Some [97, 92, 98]) = Some [97, 92, 98]
   \<and> downloadFilename (Some [97, 92, 98]) = [97, 92, 98] @ js ''.txt''
   \<and> 92 \<in> set path_separators
   \<and> 92 \<in> set (downloadFilename (handleChangedTitle None (Some [97, 92, 98])))
   \<and> handleChangedTitle None (Some [97, 47, 98]) = Some [97, 95, 98]"
  by (simp add: handleChangedTitle_def requestTitle_def trim_def is_space_def
      purifyFilename_def purify_class_def downloadFilename_def js_def path_separators_def Let_def)

end
